theory Spec2Isabelle
  imports Main "HOL-Library.Sublist"
begin

section \<open>Python strings\<close>

text \<open>
  A Python \<open>str\<close> is modelled as a \<open>string\<close> of ASCII characters.  The string methods
  the scripts call (\<open>lower\<close>, \<open>strip("/")\<close>, \<open>split("/")\<close>, \<open>in\<close>, \<open>startswith\<close>,
  \<open>endswith\<close>, \<open>isdigit\<close>, \<open>int\<close>) and the three regular expressions they search for are
  written out as list functions.
\<close>

type_synonym slug = string

definition is_upper :: "char \<Rightarrow> bool" where
  "is_upper c = (65 \<le> (of_char c :: nat) \<and> (of_char c :: nat) \<le> 90)"

definition is_lower :: "char \<Rightarrow> bool" where
  "is_lower c = (97 \<le> (of_char c :: nat) \<and> (of_char c :: nat) \<le> 122)"

definition is_digit :: "char \<Rightarrow> bool" where
  "is_digit c = (48 \<le> (of_char c :: nat) \<and> (of_char c :: nat) \<le> 57)"

text \<open>The class \<open>\w\<close> of the regular expressions: letters, digits and the underscore.\<close>

definition is_word_char :: "char \<Rightarrow> bool" where
  "is_word_char c = (is_upper c \<or> is_lower c \<or> is_digit c \<or> c = CHR ''_'')"

definition lower_char :: "char \<Rightarrow> char" where
  "lower_char c = (if is_upper c then char_of ((of_char c :: nat) + 32) else c)"

definition py_lower :: "string \<Rightarrow> string" where
  "py_lower s = map lower_char s"

text \<open>\<open>s.strip(ch)\<close> for a single character \<open>ch\<close>.\<close>

definition py_strip :: "char \<Rightarrow> string \<Rightarrow> string" where
  "py_strip ch s = rev (dropWhile (\<lambda>c. c = ch) (rev (dropWhile (\<lambda>c. c = ch) s)))"

text \<open>\<open>s.split(sep)\<close> for a single character \<open>sep\<close>: never the empty list.\<close>

fun py_split :: "char \<Rightarrow> string \<Rightarrow> string list" where
  "py_split sep [] = [[]]"
| "py_split sep (c # cs) =
     (if c = sep then [] # py_split sep cs
      else (case py_split sep cs of
              [] \<Rightarrow> [[c]]
            | w # ws \<Rightarrow> (c # w) # ws))"

fun py_startswith :: "string \<Rightarrow> string \<Rightarrow> bool" where
  "py_startswith s [] = True"
| "py_startswith [] (p # ps) = False"
| "py_startswith (c # cs) (p # ps) = (c = p \<and> py_startswith cs ps)"

definition py_endswith :: "string \<Rightarrow> string \<Rightarrow> bool" where
  "py_endswith s p = py_startswith (rev s) (rev p)"

text \<open>\<open>sub in s\<close>.\<close>

fun py_contains :: "string \<Rightarrow> string \<Rightarrow> bool" where
  "py_contains sub [] = (sub = [])"
| "py_contains sub (c # cs) = (py_startswith (c # cs) sub \<or> py_contains sub cs)"





text \<open>
  \<open>re.search(r"\bw\b", text)\<close> for a word \<open>w\<close> of word characters: \<open>w\<close> occurs at a
  position whose left neighbour (if any) and right neighbour (if any) are not word
  characters.  \<open>word_here\<close> is the match at the current position; the flag of
  \<open>word_from\<close> says whether the character before the current position is a word
  character.
\<close>

definition word_here :: "string \<Rightarrow> string \<Rightarrow> bool" where
  "word_here w s =
     (py_startswith s w \<and>
      (case drop (length w) s of [] \<Rightarrow> True | c # _ \<Rightarrow> \<not> is_word_char c))"

fun word_from :: "bool \<Rightarrow> string \<Rightarrow> string \<Rightarrow> bool" where
  "word_from prev w [] = False"
| "word_from prev w (c # cs) =
     ((\<not> prev \<and> word_here w (c # cs)) \<or> word_from (is_word_char c) w cs)"

definition re_search_word :: "string \<Rightarrow> string \<Rightarrow> bool" where
  "re_search_word w s = word_from False w s"

section \<open>The parsed page\<close>

text \<open>
  A fetched page is used only through a handful of BeautifulSoup queries.  The record
  holds their answers:
  \<^item> \<open>history_links\<close>: the stripped \<open>href\<close> values of the anchors inside the
    dating-history container, in document order; \<open>None\<close> when no container is found;
  \<^item> \<open>age_fact\<close>, \<open>relationships_fact\<close>: the stripped text of the two fact widgets;
    \<open>None\<close> when the widget is missing;
  \<^item> \<open>about_text\<close>: the text of the about paragraph; \<open>None\<close> when it is missing;
  \<^item> \<open>listing_links\<close>: the \<open>href\<close> values of the anchors of a letter page.
\<close>

record soup =
  history_links :: "string list option"
  age_fact :: "string option"
  relationships_fact :: "string option"
  about_text :: "string option"
  listing_links :: "string list"

section \<open>wd\_utils: slug helpers\<close>

text \<open>
  \<open>safe_slug_from_href\<close>.  The parameter \<open>urlpath\<close> stands for the standard library's
  \<open>urlparse(href).path\<close>, the path component of the link.
\<close>

definition safe_slug_from_href :: "(string \<Rightarrow> string) \<Rightarrow> string \<Rightarrow> string option" where
  "safe_slug_from_href urlpath href =
     (if href = [] then None
      else
        let path = (if urlpath href \<noteq> [] then urlpath href else href);
            path = py_strip CHR ''/'' path
        in if path = [] then None
           else
             let parts = py_split CHR ''/'' path
             in if 2 \<le> length parts \<and> py_lower (parts ! 0) = ''dating''
                then Some (parts ! 1)
                else Some (last parts))"

definition is_individual_slug :: "string \<Rightarrow> bool" where
  "is_individual_slug slug =
     (if slug = [] then False
      else
        let s = py_lower slug
        in if py_contains ''-and-'' s then False
           else if py_startswith s ''and-'' \<or> py_endswith s ''-and'' then False
           else if py_contains ''couple'' s then False
           else True)"

section \<open>wd\_utils: parsers\<close>




text \<open>\<open>parse_partners_from_history\<close>: the loop over the anchors, then the loop that
  removes repetitions.\<close>

fun partner_slugs :: "(string \<Rightarrow> string) \<Rightarrow> string list \<Rightarrow> slug list \<Rightarrow> slug list" where
  "partner_slugs urlpath [] partners = partners"
| "partner_slugs urlpath (href # hrefs) partners =
     (case safe_slug_from_href urlpath href of
        None \<Rightarrow> partner_slugs urlpath hrefs partners
      | Some slug \<Rightarrow>
          if slug = [] then partner_slugs urlpath hrefs partners
          else if \<not> is_individual_slug slug then partner_slugs urlpath hrefs partners
          else partner_slugs urlpath hrefs (partners @ [slug]))"

fun unique_slugs :: "slug list \<Rightarrow> slug set \<Rightarrow> slug list \<Rightarrow> slug list" where
  "unique_slugs [] seen unique = unique"
| "unique_slugs (p # ps) seen unique =
     (if p \<notin> seen then unique_slugs ps (insert p seen) (unique @ [p])
      else unique_slugs ps seen unique)"

definition parse_partners_from_history :: "(string \<Rightarrow> string) \<Rightarrow> soup \<Rightarrow> slug list" where
  "parse_partners_from_history urlpath sp =
     (case history_links sp of
        None \<Rightarrow> []
      | Some hrefs \<Rightarrow> unique_slugs (partner_slugs urlpath hrefs []) {} [])"

section \<open>Effects\<close>

text \<open>
  The scripts request two kinds of pages: the profile page of a slug
  (\<open>urljoin(BASE_URL, CELEB_PATH + slug)\<close>) and the listing page of a letter
  (\<open>urljoin(BASE_URL, POPULAR_PATH + letter)\<close>).  The network is a function from the
  requested page to \<open>Some\<close> parsed page, or \<open>None\<close> when \<open>fetch_soup\<close> raises.  A
  traversal puts a slug into \<open>visited\<close> before it requests its page, so it requests no
  page twice, and a function describes whatever the network does during it.

  Fetching and sleeping are recorded, in the order they happen, in a log:
  \<open>Fetch p ok\<close> is a call of \<open>fetch_soup\<close> for the page \<open>p\<close> (\<open>ok\<close> is false when the
  call raised), \<open>Sleep\<close> is a call of \<open>sleep_rate_limit\<close>.
\<close>

datatype page = ProfilePage slug | LetterPage string

datatype event = Fetch page bool | Sleep

section \<open>snowball\_collector: find\_dating\_links\_bfs\<close>

record bfs_state =
  queue :: "slug list"
  visited :: "slug set"
  collected :: "slug list"
  effects :: "event list"

datatype flow = Continue | Break

text \<open>The loop \<open>for p in partners\<close>; the queue it tests is the one it is extending.\<close>

fun enqueue_partners :: "slug set \<Rightarrow> slug list \<Rightarrow> slug list \<Rightarrow> slug list \<Rightarrow> slug list" where
  "enqueue_partners vis col q [] = q"
| "enqueue_partners vis col q (p # ps) =
     enqueue_partners vis col
       (if p \<notin> vis \<and> p \<notin> set q \<and> p \<notin> set col then q @ [p] else q) ps"

text \<open>
  One pass through the body of the \<open>while\<close> loop, after \<open>current = queue.pop(0)\<close>: the
  state \<open>s\<close> already has the shortened queue.  The result says how the pass ended: at a
  \<open>continue\<close> or at the end of the body (\<open>Continue\<close>), or at the \<open>break\<close>.
\<close>

definition bfs_body ::
  "(page \<Rightarrow> soup option) \<Rightarrow> (string \<Rightarrow> string) \<Rightarrow> int \<Rightarrow> slug \<Rightarrow> bfs_state \<Rightarrow>
     bfs_state \<times> flow"
where
  "bfs_body fetch_soup urlpath target_num current s =
     (if current \<in> visited s then (s, Continue)
      else
        let s = s\<lparr>visited := insert current (visited s)\<rparr>
        in (case fetch_soup (ProfilePage current) of
              None \<Rightarrow> (s\<lparr>effects := effects s @ [Fetch (ProfilePage current) False]\<rparr>, Continue)
            | Some sp \<Rightarrow>
                let s = s\<lparr>effects := effects s @ [Fetch (ProfilePage current) True]\<rparr>;
                    partners = parse_partners_from_history urlpath sp;
                    s = (if current \<notin> set (collected s)
                         then s\<lparr>collected := collected s @ [current]\<rparr> else s);
                    s = s\<lparr>queue := enqueue_partners (visited s) (collected s) (queue s) partners\<rparr>;
                    s = s\<lparr>effects := effects s @ [Sleep]\<rparr>
                in if queue s = [] \<and> int (length (collected s)) < target_num
                   then (s, Break) else (s, Continue)))"

text \<open>The order in which the loop terminates: the number of identifiers still to
  collect, then the collected identifiers not yet visited, then the queue length.\<close>

definition bfs_measure :: "int \<Rightarrow> bfs_state \<Rightarrow> nat \<times> nat \<times> nat" where
  "bfs_measure target_num s =
     (nat (target_num - int (length (collected s))),
      card (set (collected s) - visited s),
      length (queue s))"

definition bfs_order :: "((nat \<times> nat \<times> nat) \<times> (nat \<times> nat \<times> nat)) set" where
  "bfs_order = less_than <*lex*> less_than <*lex*> less_than"

text \<open>What one pass does, by cases; the loop terminates because every pass that
  continues makes \<open>bfs_measure\<close> smaller.\<close>

lemma bfs_body_cases [consumes 1, case_names Seen Failed Fetched]:
  assumes "bfs_body fetch_soup urlpath target_num current s = (s', fl)"
  obtains
    "current \<in> visited s" "s' = s" "fl = Continue"
  | "current \<notin> visited s" "fetch_soup (ProfilePage current) = None"
    "s' = s\<lparr>visited := insert current (visited s),
            effects := effects s @ [Fetch (ProfilePage current) False]\<rparr>"
    "fl = Continue"
  | sp where "current \<notin> visited s" "fetch_soup (ProfilePage current) = Some sp"
    "s' = s\<lparr>queue := enqueue_partners (insert current (visited s))
                       (if current \<in> set (collected s) then collected s
                        else collected s @ [current])
                       (queue s) (parse_partners_from_history urlpath sp),
            visited := insert current (visited s),
            collected := (if current \<in> set (collected s) then collected s
                          else collected s @ [current]),
            effects := effects s @ [Fetch (ProfilePage current) True, Sleep]\<rparr>"
    "fl = (if queue s' = [] \<and> int (length (collected s')) < target_num
           then Break else Continue)"
proof (cases "current \<in> visited s")
  case True
  with assms have "s' = s" "fl = Continue" by (simp_all add: bfs_body_def)
  with True show ?thesis by (rule that(1))
next
  case nv: False
  show ?thesis
  proof (cases "fetch_soup (ProfilePage current)")
    case None
    with assms nv have "s' = s\<lparr>visited := insert current (visited s),
            effects := effects s @ [Fetch (ProfilePage current) False]\<rparr>" "fl = Continue"
      by (simp_all add: bfs_body_def)
    with nv None show ?thesis by (rule that(2))
  next
    case (Some sp)
    from assms nv Some have "s' = s\<lparr>queue := enqueue_partners (insert current (visited s))
                       (if current \<in> set (collected s) then collected s
                        else collected s @ [current])
                       (queue s) (parse_partners_from_history urlpath sp),
            visited := insert current (visited s),
            collected := (if current \<in> set (collected s) then collected s
                          else collected s @ [current]),
            effects := effects s @ [Fetch (ProfilePage current) True, Sleep]\<rparr>"
      by (auto simp add: bfs_body_def Let_def split: if_splits)
    moreover from assms nv Some
    have "fl = (if queue s' = [] \<and> int (length (collected s')) < target_num
           then Break else Continue)"
      by (auto simp add: bfs_body_def Let_def split: if_splits)
    ultimately show ?thesis using nv Some that(3) by blast
  qed
qed

lemma bfs_body_decreases:
  assumes "queue s = current # rest"
    and "int (length (collected s)) < target_num"
    and "bfs_body fetch_soup urlpath target_num current (s\<lparr>queue := rest\<rparr>) = (s', fl)"
  shows "(bfs_measure target_num s', bfs_measure target_num s) \<in> bfs_order"
  using assms(3)
proof (cases rule: bfs_body_cases)
  case Seen
  with assms(1) show ?thesis by (simp add: bfs_measure_def bfs_order_def)
next
  case Failed
  have "card (set (collected s) - insert current (visited s))
      \<le> card (set (collected s) - visited s)"
    by (rule card_mono) auto
  with Failed assms(1) show ?thesis by (auto simp add: bfs_measure_def bfs_order_def)
next
  case (Fetched sp)
  show ?thesis
  proof (cases "current \<in> set (collected s)")
    case True
    with Fetched(1) have "card (set (collected s) - insert current (visited s))
        < card (set (collected s) - visited s)"
      by (intro psubset_card_mono) auto
    with Fetched True assms(1) show ?thesis by (simp add: bfs_measure_def bfs_order_def)
  next
    case False
    with Fetched assms(1,2) show ?thesis by (simp add: bfs_measure_def bfs_order_def)
  qed
qed

text \<open>The \<open>while\<close> loop, from the state at its head to the state after it.\<close>

function bfs_loop ::
  "(page \<Rightarrow> soup option) \<Rightarrow> (string \<Rightarrow> string) \<Rightarrow> int \<Rightarrow> bfs_state \<Rightarrow> bfs_state"
where
  "bfs_loop fetch_soup urlpath target_num s =
     (case queue s of
        [] \<Rightarrow> s
      | current # rest \<Rightarrow>
          if int (length (collected s)) < target_num
          then (case bfs_body fetch_soup urlpath target_num current (s\<lparr>queue := rest\<rparr>) of
                  (s', Break) \<Rightarrow> s'
                | (s', Continue) \<Rightarrow> bfs_loop fetch_soup urlpath target_num s')
          else s)"
  by pat_completeness auto
termination
  apply (relation "inv_image bfs_order (\<lambda>(f, u, t, s). bfs_measure t s)")
   apply (simp add: bfs_order_def wf_lex_prod)
  apply simp
  apply (erule bfs_body_decreases, assumption, erule sym)
  done

text \<open>The same loop, keeping every state it goes through: the state at the head of
  the loop before each pass, and the state it ends in.\<close>

function bfs_trace ::
  "(page \<Rightarrow> soup option) \<Rightarrow> (string \<Rightarrow> string) \<Rightarrow> int \<Rightarrow> bfs_state \<Rightarrow> bfs_state list"
where
  "bfs_trace fetch_soup urlpath target_num s =
     (case queue s of
        [] \<Rightarrow> [s]
      | current # rest \<Rightarrow>
          if int (length (collected s)) < target_num
          then (case bfs_body fetch_soup urlpath target_num current (s\<lparr>queue := rest\<rparr>) of
                  (s', Break) \<Rightarrow> [s, s']
                | (s', Continue) \<Rightarrow> s # bfs_trace fetch_soup urlpath target_num s')
          else [s])"
  by pat_completeness auto
termination
  apply (relation "inv_image bfs_order (\<lambda>(f, u, t, s). bfs_measure t s)")
   apply (simp add: bfs_order_def wf_lex_prod)
  apply simp
  apply (erule bfs_body_decreases, assumption, erule sym)
  done

declare bfs_loop.simps [simp del] bfs_trace.simps [simp del]

definition bfs_init :: "slug \<Rightarrow> bfs_state" where
  "bfs_init start_slug = \<lparr>queue = [start_slug], visited = {}, collected = [], effects = []\<rparr>"

text \<open>The slice \<open>xs[:n]\<close>; a negative \<open>n\<close> counts from the end.\<close>

definition py_slice_to :: "int \<Rightarrow> 'a list \<Rightarrow> 'a list" where
  "py_slice_to n xs = (if 0 \<le> n then take (nat n) xs else take (nat (int (length xs) + n)) xs)"

definition find_dating_links_bfs ::
  "(page \<Rightarrow> soup option) \<Rightarrow> (string \<Rightarrow> string) \<Rightarrow> slug \<Rightarrow> int \<Rightarrow> slug list"
where
  "find_dating_links_bfs fetch_soup urlpath start_slug target_num =
     py_slice_to target_num
       (collected (bfs_loop fetch_soup urlpath target_num (bfs_init start_slug)))"

section \<open>wd\_utils: fetch\_profile and write\_profiles\<close>

text \<open>
  The record that \<open>fetch_profile\<close> builds, with the keys that the parsers above fill.
  (The keys \<open>slug\<close>, \<open>url\<close>, \<open>name\<close> and \<open>profile_table\<close> play no part in what
  is proved below and are left out.)  \<open>fetch_profile\<close> returns \<open>None\<close> when the fetch
  raises.  It takes the log and returns it extended.
\<close>

record profile =
  profile_age :: "int option"
  profile_relationships_total :: "int option"
  gender_inferred :: string
  partners :: "slug list"




section \<open>alphabet\_collector: fetch\_letter\_slugs\<close>



section \<open>Vocabulary of the specification\<close>

subsection \<open>The relationship graph\<close>





subsection \<open>Delays in a log\<close>



subsection \<open>The heuristics as the specification words them\<close>

text \<open>The pairing markers of an identifier, read literally: \<open>-and-\<close> inside it,
  \<open>and-\<close> at its start, \<open>-and\<close> at its end, or \<open>couple\<close> inside it.\<close>

definition spec_pairing_marker :: "string \<Rightarrow> bool" where
  "spec_pairing_marker s =
     (sublist ''-and-'' s \<or> prefix ''and-'' s \<or> suffix ''-and'' s \<or> sublist ''couple'' s)"

definition spec_classify_individual :: "string \<Rightarrow> bool" where
  "spec_classify_individual s = (\<not> spec_pairing_marker s)"



subsection \<open>The state of the traversal\<close>

text \<open>The queue holds no identifier twice and none that is already visited.\<close>

definition queue_inv :: "bfs_state \<Rightarrow> bool" where
  "queue_inv s = (distinct (queue s) \<and> set (queue s) \<inter> visited s = {})"


section \<open>Example pages\<close>

definition no_page :: soup where
  "no_page = \<lparr>history_links = None, age_fact = None, relationships_fact = None,
               about_text = None, listing_links = []\<rparr>"

definition history_page :: "string list \<Rightarrow> soup" where
  "history_page hrefs = no_page\<lparr>history_links := Some hrefs\<rparr>"

text \<open>On a plain path such as \<open>/dating/b\<close>, \<open>urlparse(href).path\<close> is the path itself.\<close>

definition plain_path :: "string \<Rightarrow> string" where
  "plain_path href = href"

text \<open>The scenario of the specification: \<open>a\<close> has partners \<open>b\<close> and \<open>c\<close>, \<open>b\<close> has
  partners \<open>c\<close> and \<open>d\<close>, \<open>c\<close> has none, and every other fetch fails.\<close>

definition scenario :: "page \<Rightarrow> soup option" where
  "scenario p =
     (if p = ProfilePage ''a'' then Some (history_page [''/dating/b'', ''/dating/c''])
      else if p = ProfilePage ''b'' then Some (history_page [''/dating/c'', ''/dating/d''])
      else if p = ProfilePage ''c'' then Some (history_page [])
      else None)"



text \<open>A network that is down.\<close>

definition offline :: "page \<Rightarrow> soup option" where
  "offline p = None"

section \<open>Strings and digits\<close>

text \<open>The string tests of the scripts are the prefix, suffix and infix relations on
  lists; the digit search returns nothing exactly on a text without digits.\<close>

lemma py_startswith_prefix: "py_startswith s p = prefix p s"
  by (induction s p rule: py_startswith.induct) auto

lemma py_endswith_suffix: "py_endswith s p = suffix p s"
  by (simp add: py_endswith_def py_startswith_prefix suffix_to_prefix)

lemma py_contains_sublist: "py_contains sub s = sublist sub s"
  by (induction s) (simp_all add: py_startswith_prefix sublist_Cons_right)

lemma is_individual_slug_markers:
  "is_individual_slug s = (s \<noteq> [] \<and> \<not> spec_pairing_marker (py_lower s))"
  by (auto simp add: is_individual_slug_def spec_pairing_marker_def Let_def
      py_startswith_prefix py_endswith_suffix py_contains_sublist)

lemma spec_pairing_marker_lower:
  assumes "spec_pairing_marker s"
  shows "spec_pairing_marker (py_lower s)"
proof -
  have l: "py_lower ''-and-'' = ''-and-''" "py_lower ''and-'' = ''and-''"
    "py_lower ''-and'' = ''-and''" "py_lower ''couple'' = ''couple''"
    by (simp_all add: py_lower_def lower_char_def is_upper_def)
  from assms consider "sublist ''-and-'' s" | "prefix ''and-'' s" | "suffix ''-and'' s"
    | "sublist ''couple'' s"
    by (auto simp: spec_pairing_marker_def)
  then show ?thesis
  proof cases
    case 1
    from map_mono_sublist[OF this, of lower_char] l show ?thesis
      by (simp add: spec_pairing_marker_def py_lower_def)
  next
    case 2
    from map_mono_prefix[OF this, of lower_char] l show ?thesis
      by (simp add: spec_pairing_marker_def py_lower_def)
  next
    case 3
    from map_mono_suffix[OF this, of lower_char] l show ?thesis
      by (simp add: spec_pairing_marker_def py_lower_def)
  next
    case 4
    from map_mono_sublist[OF this, of lower_char] l show ?thesis
      by (simp add: spec_pairing_marker_def py_lower_def)
  qed
qed





text \<open>The word search, read as a statement about the text: the word occurs with no
  word character directly before it and none directly after it.\<close>

lemma word_here_iff:
  "word_here w s = (\<exists>post. s = w @ post \<and> (post = [] \<or> \<not> is_word_char (hd post)))"
proof
  assume "word_here w s"
  then have p: "prefix w s" and b: "case drop (length w) s of [] \<Rightarrow> True | c # _ \<Rightarrow> \<not> is_word_char c"
    by (simp_all add: word_here_def py_startswith_prefix)
  from p obtain post where s: "s = w @ post" by (auto simp: prefix_def)
  with b have "post = [] \<or> \<not> is_word_char (hd post)" by (cases post) simp_all
  with s show "\<exists>post. s = w @ post \<and> (post = [] \<or> \<not> is_word_char (hd post))" by blast
next
  assume "\<exists>post. s = w @ post \<and> (post = [] \<or> \<not> is_word_char (hd post))"
  then obtain post where s: "s = w @ post" and b: "post = [] \<or> \<not> is_word_char (hd post)"
    by blast
  then show "word_here w s"
    by (cases post) (simp_all add: word_here_def py_startswith_prefix)
qed

lemma word_from_iff:
  assumes "w \<noteq> []"
  shows "word_from prev w s =
    (\<exists>pre post. s = pre @ w @ post \<and>
       (if pre = [] then \<not> prev else \<not> is_word_char (last pre)) \<and>
       (post = [] \<or> \<not> is_word_char (hd post)))"
proof (induction s arbitrary: prev)
  case Nil
  with assms show ?case by simp
next
  case (Cons c cs)
  let ?rhs = "\<lambda>prev s. \<exists>pre post. s = pre @ w @ post \<and>
       (if pre = [] then \<not> prev else \<not> is_word_char (last pre)) \<and>
       (post = [] \<or> \<not> is_word_char (hd post))"
  have "?rhs prev (c # cs) = ((\<not> prev \<and> word_here w (c # cs)) \<or> ?rhs (is_word_char c) cs)"
  proof
    assume "?rhs prev (c # cs)"
    then obtain pre post where s: "c # cs = pre @ w @ post"
      and l: "if pre = [] then \<not> prev else \<not> is_word_char (last pre)"
      and r: "post = [] \<or> \<not> is_word_char (hd post)" by blast
    show "(\<not> prev \<and> word_here w (c # cs)) \<or> ?rhs (is_word_char c) cs"
    proof (cases pre)
      case Nil
      with s l r show ?thesis by (auto simp: word_here_iff)
    next
      case (Cons p ps)
      with s have "p = c" "cs = ps @ w @ post" by simp_all
      moreover from l Cons \<open>p = c\<close>
      have "if ps = [] then \<not> is_word_char c else \<not> is_word_char (last ps)"
        by (simp split: if_splits)
      ultimately have "?rhs (is_word_char c) cs" using r by blast
      then show ?thesis by blast
    qed
  next
    assume "(\<not> prev \<and> word_here w (c # cs)) \<or> ?rhs (is_word_char c) cs"
    then show "?rhs prev (c # cs)"
    proof
      assume "\<not> prev \<and> word_here w (c # cs)"
      then obtain post where "c # cs = [] @ w @ post" "post = [] \<or> \<not> is_word_char (hd post)"
        "\<not> prev" by (auto simp: word_here_iff)
      then show ?thesis by (intro exI[of _ "[]"] exI[of _ post]) simp
    next
      assume "?rhs (is_word_char c) cs"
      then obtain pre post where s: "cs = pre @ w @ post"
        and l: "if pre = [] then \<not> is_word_char c else \<not> is_word_char (last pre)"
        and r: "post = [] \<or> \<not> is_word_char (hd post)" by blast
      from s l r show ?thesis
        by (intro exI[of _ "c # pre"] exI[of _ post]) (simp split: if_splits)
    qed
  qed
  with Cons.IH[of "is_word_char c"] show ?case by simp
qed

lemma re_search_word_iff:
  assumes "w \<noteq> []"
  shows "re_search_word w s =
    (\<exists>pre post. s = pre @ w @ post \<and>
       (pre = [] \<or> \<not> is_word_char (last pre)) \<and>
       (post = [] \<or> \<not> is_word_char (hd post)))"
  unfolding re_search_word_def word_from_iff[OF assms] by auto

text \<open>When \<open>safe_slug_from_href\<close> returns the empty string, the path has \<open>dating\<close> as
  its first segment and an empty second segment.\<close>

lemma py_split_nonempty: "py_split sep s \<noteq> []"
  by (cases s) (simp_all split: list.split)

lemma py_split_last:
  "s \<noteq> [] \<Longrightarrow> last s \<noteq> sep \<Longrightarrow> last (py_split sep s) \<noteq> []"
proof (induction s)
  case Nil
  then show ?case by simp
next
  case (Cons c cs)
  show ?case
  proof (cases "cs = []")
    case True
    with Cons.prems show ?thesis by simp
  next
    case False
    with Cons have IH: "last (py_split sep cs) \<noteq> []" by simp
    obtain w ws where ws: "py_split sep cs = w # ws"
      using py_split_nonempty[of sep cs] by (cases "py_split sep cs") auto
    with IH show ?thesis by (auto split: if_splits)
  qed
qed

lemma py_strip_last: "py_strip ch s \<noteq> [] \<Longrightarrow> last (py_strip ch s) \<noteq> ch"
  using hd_dropWhile[of "\<lambda>c. c = ch" "rev (dropWhile (\<lambda>c. c = ch) s)"]
  by (simp add: py_strip_def last_rev)

lemma safe_slug_from_href_empty:
  assumes "safe_slug_from_href urlpath href = Some []"
  shows "\<exists>a rest. py_split CHR ''/''
            (py_strip CHR ''/'' (if urlpath href \<noteq> [] then urlpath href else href))
           = a # [] # rest \<and> py_lower a = ''dating''"
proof -
  let ?path = "py_strip CHR ''/'' (if urlpath href \<noteq> [] then urlpath href else href)"
  let ?parts = "py_split CHR ''/'' ?path"
  from assms have ne: "?path \<noteq> []"
    by (auto simp: safe_slug_from_href_def Let_def split: if_splits)
  from py_split_last[OF ne py_strip_last[OF ne]] have l: "last ?parts \<noteq> []" .
  with assms ne have c: "2 \<le> length ?parts" "py_lower (?parts ! 0) = ''dating''" "?parts ! 1 = []"
    by (auto simp: safe_slug_from_href_def Let_def split: if_splits)
  from c(1) obtain a b rest where p: "?parts = a # b # rest"
    by (cases ?parts; cases "tl ?parts") auto
  with c(2,3) show ?thesis by simp
qed

section \<open>The loop and its states\<close>

text \<open>A property that holds at the head of the loop and that every pass preserves
  holds in every state of the trace, and in the state the loop ends in.\<close>

lemma bfs_trace_invariant:
  assumes "I s"
    and step: "\<And>s current rest s' fl. I s \<Longrightarrow> queue s = current # rest \<Longrightarrow>
      int (length (collected s)) < target_num \<Longrightarrow>
      bfs_body fetch_soup urlpath target_num current (s\<lparr>queue := rest\<rparr>) = (s', fl) \<Longrightarrow> I s'"
  shows "\<forall>x \<in> set (bfs_trace fetch_soup urlpath target_num s). I x"
  using assms
proof (induction fetch_soup urlpath target_num s rule: bfs_trace.induct)
  case (1 fetch_soup urlpath target_num s)
  note Is = "1.prems"(1) and step = "1.prems"(2)
  show ?case
  proof (cases "queue s")
    case Nil
    with Is show ?thesis by (subst bfs_trace.simps) simp
  next
    case (Cons current rest)
    show ?thesis
    proof (cases "int (length (collected s)) < target_num")
      case False
      with Cons Is show ?thesis by (subst bfs_trace.simps) simp
    next
      case True
      obtain s' fl where b: "bfs_body fetch_soup urlpath target_num current (s\<lparr>queue := rest\<rparr>) = (s', fl)"
        by (cases "bfs_body fetch_soup urlpath target_num current (s\<lparr>queue := rest\<rparr>)")
      have I': "I s'" using step[OF Is Cons True b] .
      show ?thesis
      proof (cases fl)
        case Break
        with Cons True b I' Is show ?thesis by (subst bfs_trace.simps) simp
      next
        case Continue
        from "1.IH"[OF Cons True b[symmetric] Continue I' step]
        have "\<forall>x\<in>set (bfs_trace fetch_soup urlpath target_num s'). I x" .
        with Cons True b Continue Is show ?thesis by (subst bfs_trace.simps) simp
      qed
    qed
  qed
qed


lemma bfs_trace_hd: "\<exists>tr. bfs_trace fetch_soup urlpath target_num s = s # tr"
  by (subst bfs_trace.simps) (simp split: list.split prod.split flow.split)

lemma bfs_trace_nonempty: "bfs_trace fetch_soup urlpath target_num s \<noteq> []"
  using bfs_trace_hd[of fetch_soup urlpath target_num s] by auto

lemma bfs_trace_last:
  "last (bfs_trace fetch_soup urlpath target_num s) = bfs_loop fetch_soup urlpath target_num s"
proof (induction fetch_soup urlpath target_num s rule: bfs_trace.induct)
  case (1 fetch_soup urlpath target_num s)
  show ?case
  proof (cases "queue s")
    case Nil
    then show ?thesis by (subst bfs_trace.simps, subst bfs_loop.simps) simp
  next
    case (Cons current rest)
    show ?thesis
    proof (cases "int (length (collected s)) < target_num")
      case False
      with Cons show ?thesis by (subst bfs_trace.simps, subst bfs_loop.simps) simp
    next
      case True
      obtain s' fl where b: "bfs_body fetch_soup urlpath target_num current (s\<lparr>queue := rest\<rparr>) = (s', fl)"
        by (cases "bfs_body fetch_soup urlpath target_num current (s\<lparr>queue := rest\<rparr>)")
      show ?thesis
      proof (cases fl)
        case Break
        with Cons True b show ?thesis by (subst bfs_trace.simps, subst bfs_loop.simps) simp
      next
        case Continue
        from "1.IH"[OF Cons True b[symmetric] Continue]
        have "last (bfs_trace fetch_soup urlpath target_num s') = bfs_loop fetch_soup urlpath target_num s'" .
        with Cons True b Continue bfs_trace_nonempty[of fetch_soup urlpath target_num s']
        show ?thesis by (subst bfs_trace.simps, subst bfs_loop.simps) simp
      qed
    qed
  qed
qed

lemma bfs_loop_in_trace:
  "bfs_loop fetch_soup urlpath target_num s \<in> set (bfs_trace fetch_soup urlpath target_num s)"
  using last_in_set[OF bfs_trace_nonempty[of fetch_soup urlpath target_num s]]
  by (simp only: bfs_trace_last)



lemma enqueue_partners_set:
  "set (enqueue_partners vis col q ps) = set q \<union> {p \<in> set ps. p \<notin> vis \<and> p \<notin> set col}"
  by (induction ps arbitrary: q) auto

lemma enqueue_partners_distinct:
  "distinct q \<Longrightarrow> distinct (enqueue_partners vis col q ps)"
  by (induction ps arbitrary: q) auto




lemma queue_inv_init: "queue_inv (bfs_init seed)"
  by (simp add: queue_inv_def bfs_init_def)

lemma queue_inv_step:
  assumes "queue_inv s" "queue s = current # rest"
    and "bfs_body fetch_soup urlpath target_num current (s\<lparr>queue := rest\<rparr>) = (s', fl)"
  shows "queue_inv s'"
  using assms(3)
proof (cases rule: bfs_body_cases)
  case Seen
  with assms(1,2) show ?thesis by (auto simp: queue_inv_def)
next
  case Failed
  with assms(1,2) show ?thesis by (auto simp: queue_inv_def)
next
  case (Fetched sp)
  with assms(1,2) show ?thesis
    by (auto simp: queue_inv_def enqueue_partners_set enqueue_partners_distinct)
qed

lemma collected_distinct_step:
  assumes "distinct (collected s)"
    and "bfs_body fetch_soup urlpath target_num current (s\<lparr>queue := rest\<rparr>) = (s', fl)"
  shows "distinct (collected s')"
  using assms(2) by (cases rule: bfs_body_cases) (use assms(1) in auto)

lemma visited_step:
  assumes "bfs_body fetch_soup urlpath target_num current s = (s', fl)"
  shows "visited s \<subseteq> visited s'"
  using assms by (cases rule: bfs_body_cases) auto

lemma py_slice_to_distinct: "distinct xs \<Longrightarrow> distinct (py_slice_to n xs)"
  by (simp add: py_slice_to_def)


lemma bfs_trace_chain:
  assumes "\<And>a b c. R a b \<Longrightarrow> R b c \<Longrightarrow> R a c"
    and "\<And>s current rest s' fl. queue s = current # rest \<Longrightarrow>
      int (length (collected s)) < target_num \<Longrightarrow>
      bfs_body fetch_soup urlpath target_num current (s\<lparr>queue := rest\<rparr>) = (s', fl) \<Longrightarrow> R s s'"
  shows "sorted_wrt R (bfs_trace fetch_soup urlpath target_num s)"
  using assms
proof (induction fetch_soup urlpath target_num s rule: bfs_trace.induct)
  case (1 fetch_soup urlpath target_num s)
  note Rtrans = "1.prems"(1) and step = "1.prems"(2)
  show ?case
  proof (cases "queue s")
    case Nil
    then show ?thesis by (subst bfs_trace.simps) simp
  next
    case (Cons current rest)
    show ?thesis
    proof (cases "int (length (collected s)) < target_num")
      case False
      with Cons show ?thesis by (subst bfs_trace.simps) simp
    next
      case True
      obtain s' fl where b: "bfs_body fetch_soup urlpath target_num current (s\<lparr>queue := rest\<rparr>) = (s', fl)"
        by (cases "bfs_body fetch_soup urlpath target_num current (s\<lparr>queue := rest\<rparr>)")
      have R: "R s s'" using step[OF Cons True b] .
      show ?thesis
      proof (cases fl)
        case Break
        with Cons True b R show ?thesis by (subst bfs_trace.simps) simp
      next
        case Continue
        have sw: "sorted_wrt R (bfs_trace fetch_soup urlpath target_num s')"
        proof (rule "1.IH"[OF Cons True b[symmetric] Continue])
          show "\<And>a b c. R a b \<Longrightarrow> R b c \<Longrightarrow> R a c" by (rule Rtrans)
          show "\<And>s current rest s' fl. queue s = current # rest \<Longrightarrow>
            int (length (collected s)) < target_num \<Longrightarrow>
            bfs_body fetch_soup urlpath target_num current (s\<lparr>queue := rest\<rparr>) = (s', fl) \<Longrightarrow>
            R s s'" by (rule step)
        qed
        obtain tr where tr: "bfs_trace fetch_soup urlpath target_num s' = s' # tr"
          using bfs_trace_hd by blast
        from sw tr R Rtrans have "\<forall>x \<in> set (s' # tr). R s x" by auto
        with sw tr Cons True b Continue show ?thesis by (subst bfs_trace.simps) simp
      qed
    qed
  qed
qed

lemma queue_inv_trace:
  "\<forall>s \<in> set (bfs_trace fetch_soup urlpath target_num (bfs_init start_slug)). queue_inv s"
  by (rule bfs_trace_invariant[where I = queue_inv]) (rule queue_inv_init, erule (1) queue_inv_step)

lemma visited_chain:
  "sorted_wrt (\<lambda>s s'. visited s \<subseteq> visited s') (bfs_trace fetch_soup urlpath target_num s0)"
proof (rule bfs_trace_chain)
  fix a b c :: bfs_state
  assume "visited a \<subseteq> visited b" "visited b \<subseteq> visited c"
  then show "visited a \<subseteq> visited c" by blast
next
  fix s current rest s' fl
  assume "bfs_body fetch_soup urlpath target_num current (s\<lparr>queue := rest\<rparr>) = (s', fl)"
  from visited_step[OF this] show "visited s \<subseteq> visited s'" by simp
qed

section \<open>Distances and the invariant of the traversal\<close>




















section \<open>Delays\<close>






section \<open>The snowball traversal\<close>



text \<open>
  Claim C2.  Whatever the seed, the target and the behaviour of the network, the
  traversal never collects an identifier twice: in every state the loop goes through
  the list \<open>collected\<close> has as many entries as it has distinct elements, and so has the
  list that \<open>find_dating_links_bfs\<close> returns.
\<close>


theorem collected_has_no_duplicates:
  "(\<forall>s \<in> set (bfs_trace fetch_soup urlpath target_num (bfs_init start_slug)).
      length (collected s) = card (set (collected s))) \<and>
   length (find_dating_links_bfs fetch_soup urlpath start_slug target_num) =
     card (set (find_dating_links_bfs fetch_soup urlpath start_slug target_num))"
proof -
  have tr: "\<forall>s \<in> set (bfs_trace fetch_soup urlpath target_num (bfs_init start_slug)).
      distinct (collected s)"
    by (rule bfs_trace_invariant[where I = "\<lambda>s. distinct (collected s)"])
      (simp add: bfs_init_def, erule collected_distinct_step)
  then have "distinct (collected (bfs_loop fetch_soup urlpath target_num (bfs_init start_slug)))"
    using bfs_loop_in_trace by blast
  then have "distinct (find_dating_links_bfs fetch_soup urlpath start_slug target_num)"
    by (simp add: find_dating_links_bfs_def py_slice_to_distinct)
  with tr show ?thesis by (simp add: distinct_card)
qed
theorem collected_has_no_duplicates_witness:
  "bfs_loop scenario plain_path 4 (bfs_init ''a'')
     \<in> set (bfs_trace scenario plain_path 4 (bfs_init ''a'')) \<and>
   collected (bfs_loop scenario plain_path 4 (bfs_init ''a'')) = [''a'', ''b'', ''c''] \<and>
   length (collected (bfs_loop scenario plain_path 4 (bfs_init ''a''))) =
     card (set (collected (bfs_loop scenario plain_path 4 (bfs_init ''a'')))) \<and>
   length (find_dating_links_bfs scenario plain_path ''a'' 4) =
     card (set (find_dating_links_bfs scenario plain_path ''a'' 4))"
proof -
  have m: "bfs_loop scenario plain_path 4 (bfs_init ''a'')
     \<in> set (bfs_trace scenario plain_path 4 (bfs_init ''a''))"
    by (rule bfs_loop_in_trace)
  have e: "collected (bfs_loop scenario plain_path 4 (bfs_init ''a'')) = [''a'', ''b'', ''c'']"
    by code_simp
  from collected_has_no_duplicates[of scenario plain_path 4 "''a''"] m e show ?thesis
    by blast
qed

text \<open>
  Claim C3.  In every execution of the traversal the set \<open>visited\<close> only grows: of
  any two states the loop goes through, the later one has every element of the earlier
  one's \<open>visited\<close>.  And in every such state the queue holds no identifier that is
  already in \<open>visited\<close>.
\<close>

theorem visited_grows_queue_unvisited:
  "sorted_wrt (\<lambda>s s'. visited s \<subseteq> visited s')
     (bfs_trace fetch_soup urlpath target_num (bfs_init start_slug)) \<and>
   (\<forall>s \<in> set (bfs_trace fetch_soup urlpath target_num (bfs_init start_slug)).
      \<forall>x \<in> set (queue s). x \<notin> visited s)"
  using visited_chain[of fetch_soup urlpath target_num "bfs_init start_slug"]
    queue_inv_trace[of fetch_soup urlpath target_num start_slug]
  by (auto simp: queue_inv_def)

theorem visited_grows_queue_unvisited_witness:
  "map queue (bfs_trace scenario plain_path 4 (bfs_init ''a'')) =
     [[''a''], [''b'', ''c''], [''c'', ''d''], [''d''], []] \<and>
   sorted_wrt (\<lambda>s s'. visited s \<subseteq> visited s')
     (bfs_trace scenario plain_path 4 (bfs_init ''a'')) \<and>
   bfs_trace scenario plain_path 4 (bfs_init ''a'') ! 2
     \<in> set (bfs_trace scenario plain_path 4 (bfs_init ''a'')) \<and>
   ''d'' \<in> set (queue (bfs_trace scenario plain_path 4 (bfs_init ''a'') ! 2)) \<and>
   ''d'' \<notin> visited (bfs_trace scenario plain_path 4 (bfs_init ''a'') ! 2)"
proof -
  have q: "map queue (bfs_trace scenario plain_path 4 (bfs_init ''a'')) =
     [[''a''], [''b'', ''c''], [''c'', ''d''], [''d''], []]"
    by code_simp
  have "length (bfs_trace scenario plain_path 4 (bfs_init ''a'')) = 5"
    by code_simp
  then have m: "bfs_trace scenario plain_path 4 (bfs_init ''a'') ! 2
     \<in> set (bfs_trace scenario plain_path 4 (bfs_init ''a''))"
    by (intro nth_mem) simp
  have a: "''d'' \<in> set (queue (bfs_trace scenario plain_path 4 (bfs_init ''a'') ! 2))"
    by code_simp
  from visited_grows_queue_unvisited[of scenario plain_path 4 "''a''"]
  have s: "sorted_wrt (\<lambda>s s'. visited s \<subseteq> visited s')
     (bfs_trace scenario plain_path 4 (bfs_init ''a''))"
    and u: "\<forall>s \<in> set (bfs_trace scenario plain_path 4 (bfs_init ''a'')).
      \<forall>x \<in> set (queue s). x \<notin> visited s"
    by blast+
  from u m a have "''d'' \<notin> visited (bfs_trace scenario plain_path 4 (bfs_init ''a'') ! 2)"
    by blast
  with q s m a show ?thesis by blast
qed

text \<open>
  Claim C10.  In every state the loop goes through, the queue holds each identifier at
  most once.
\<close>

theorem queue_has_no_duplicates:
  "\<forall>s \<in> set (bfs_trace fetch_soup urlpath target_num (bfs_init start_slug)).
     distinct (queue s)"
  using queue_inv_trace[of fetch_soup urlpath target_num start_slug]
  by (simp add: queue_inv_def)

theorem queue_has_no_duplicates_witness:
  "bfs_trace scenario plain_path 4 (bfs_init ''a'') ! 2
     \<in> set (bfs_trace scenario plain_path 4 (bfs_init ''a'')) \<and>
   queue (bfs_trace scenario plain_path 4 (bfs_init ''a'') ! 2) = [''c'', ''d''] \<and>
   distinct (queue (bfs_trace scenario plain_path 4 (bfs_init ''a'') ! 2))"
proof -
  have l: "length (bfs_trace scenario plain_path 4 (bfs_init ''a'')) = 5"
    by code_simp
  then have m: "bfs_trace scenario plain_path 4 (bfs_init ''a'') ! 2
     \<in> set (bfs_trace scenario plain_path 4 (bfs_init ''a''))"
    by (intro nth_mem) simp
  have q: "queue (bfs_trace scenario plain_path 4 (bfs_init ''a'') ! 2) = [''c'', ''d'']"
    by code_simp
  from queue_has_no_duplicates[of scenario plain_path 4 "''a''"] m q show ?thesis by blast
qed

text \<open>
  Claim C6.  If the fetch of the seed fails, the traversal returns the empty list.  When
  the target is positive, so that the seed is fetched at all, the loop makes exactly one
  pass: it ends in the state where the seed is visited, nothing is collected and the
  queue is empty, having logged the failed fetch and nothing else.
\<close>

theorem failing_seed_gives_nothing:
  assumes "fetch_soup (ProfilePage start_slug) = None"
  shows "find_dating_links_bfs fetch_soup urlpath start_slug target_num = [] \<and>
    (0 < target_num \<longrightarrow>
       bfs_trace fetch_soup urlpath target_num (bfs_init start_slug) =
         [bfs_init start_slug,
          \<lparr>queue = [], visited = {start_slug}, collected = [],
           effects = [Fetch (ProfilePage start_slug) False]\<rparr>] \<and>
       bfs_loop fetch_soup urlpath target_num (bfs_init start_slug) =
          \<lparr>queue = [], visited = {start_slug}, collected = [],
           effects = [Fetch (ProfilePage start_slug) False]\<rparr>)"
proof -
  let ?s1 = "\<lparr>queue = [], visited = {start_slug}, collected = [],
           effects = [Fetch (ProfilePage start_slug) False]\<rparr>"
  have body: "bfs_body fetch_soup urlpath target_num start_slug
      (bfs_init start_slug\<lparr>queue := []\<rparr>) = (?s1, Continue)"
    using assms by (simp add: bfs_body_def bfs_init_def)
  have tr1: "bfs_trace fetch_soup urlpath target_num ?s1 = [?s1]"
    by (subst bfs_trace.simps) simp
  have tr: "0 < target_num \<Longrightarrow>
      bfs_trace fetch_soup urlpath target_num (bfs_init start_slug) = [bfs_init start_slug, ?s1]"
    using body tr1 by (subst bfs_trace.simps) (simp add: bfs_init_def)
  have lp: "0 < target_num \<Longrightarrow> bfs_loop fetch_soup urlpath target_num (bfs_init start_slug) = ?s1"
    using tr bfs_trace_last[of fetch_soup urlpath target_num "bfs_init start_slug"] by simp
  have lp0: "\<not> 0 < target_num \<Longrightarrow>
      bfs_loop fetch_soup urlpath target_num (bfs_init start_slug) = bfs_init start_slug"
    by (subst bfs_loop.simps) (simp add: bfs_init_def)
  have "collected (bfs_loop fetch_soup urlpath target_num (bfs_init start_slug)) = []"
    using lp lp0 by (cases "0 < target_num") (simp_all add: bfs_init_def)
  then have "find_dating_links_bfs fetch_soup urlpath start_slug target_num = []"
    by (simp add: find_dating_links_bfs_def py_slice_to_def)
  with tr lp show ?thesis by blast
qed

theorem failing_seed_gives_nothing_witness:
  "offline (ProfilePage ''a'') = None \<and> (0::int) < 4 \<and>
   find_dating_links_bfs offline plain_path ''a'' 4 = [] \<and>
   bfs_loop offline plain_path 4 (bfs_init ''a'') =
     \<lparr>queue = [], visited = {''a''}, collected = [],
      effects = [Fetch (ProfilePage ''a'') False]\<rparr>"
proof -
  have h: "offline (ProfilePage ''a'') = None" by (simp add: offline_def)
  from failing_seed_gives_nothing[of offline "''a''" plain_path 4, OF h] h show ?thesis by simp
qed

section \<open>The slug helpers\<close>

text \<open>
  Claim C5 (the code departs from it).  \<open>safe_slug_from_href\<close> is meant to return a
  non-empty slug or \<open>None\<close>, and tests for the empty \<open>href\<close> and the empty path.  It
  does not test the segment after \<open>dating\<close>: on the path \<open>/dating//foo\<close>, whose second
  segment is empty, it returns the empty string.
\<close>

theorem slug_from_href_empty_segment:
  "safe_slug_from_href plain_path ''/dating//foo'' = Some ''''"
  by code_simp

text \<open>
  Claim C7, amended.  \<open>is_individual_slug\<close> lower-cases the identifier before it looks
  for the pairing markers, and rejects the empty identifier: it returns true exactly
  for the non-empty identifiers whose lower-cased form has no marker.  So it returns
  false for every identifier with a marker, and on non-empty identifiers already in
  lower case it is the classification of the specification.  The three examples of the
  specification come out as stated.
\<close>

theorem individual_slug_rule:
  "is_individual_slug s = (s \<noteq> [] \<and> \<not> spec_pairing_marker (py_lower s)) \<and>
   (spec_pairing_marker s \<longrightarrow> \<not> is_individual_slug s) \<and>
   (s \<noteq> [] \<and> py_lower s = s \<longrightarrow> is_individual_slug s = spec_classify_individual s) \<and>
   is_individual_slug ''dylan-sprouse'' \<and>
   \<not> is_individual_slug ''ariana-grande-and-dalton-gomez'' \<and>
   \<not> is_individual_slug ''celebrity-couples''"
proof -
  have "is_individual_slug ''dylan-sprouse''"
    "\<not> is_individual_slug ''ariana-grande-and-dalton-gomez''"
    "\<not> is_individual_slug ''celebrity-couples''"
    by code_simp+
  then show ?thesis
    using is_individual_slug_markers[of s] spec_pairing_marker_lower[of s]
    by (auto simp: spec_classify_individual_def)
qed

theorem individual_slug_rule_witness:
  "spec_pairing_marker ''brad-and-angelina'' \<and> \<not> is_individual_slug ''brad-and-angelina'' \<and>
   ''zendaya'' \<noteq> [] \<and> py_lower ''zendaya'' = ''zendaya'' \<and>
   is_individual_slug ''zendaya'' = spec_classify_individual ''zendaya'' \<and>
   is_individual_slug ''zendaya''"
proof -
  have a: "spec_pairing_marker ''brad-and-angelina''"
    by (simp add: spec_pairing_marker_def sublist_Cons_right)
  have b: "py_lower ''zendaya'' = ''zendaya''" by code_simp
  have c: "is_individual_slug ''zendaya''" by code_simp
  have n: "''zendaya'' \<noteq> []" by simp
  from individual_slug_rule[of "''brad-and-angelina''"] a
  have a': "\<not> is_individual_slug ''brad-and-angelina''" by blast
  from individual_slug_rule[of "''zendaya''"] n b
  have "is_individual_slug ''zendaya'' = spec_classify_individual ''zendaya''" by blast
  with a a' n b c show ?thesis by blast
qed

theorem individual_slug_counterexample:
  "is_individual_slug ''Jack-AND-Jill'' \<noteq> spec_classify_individual ''Jack-AND-Jill'' \<and>
   is_individual_slug '''' \<noteq> spec_classify_individual ''''"
proof -
  have "\<not> is_individual_slug ''Jack-AND-Jill''" "\<not> is_individual_slug ''''"
    by code_simp+
  moreover have "spec_classify_individual ''Jack-AND-Jill''" "spec_classify_individual ''''"
    by (simp_all add: spec_classify_individual_def spec_pairing_marker_def
        sublist_Cons_right suffix_to_prefix)
  ultimately show ?thesis by simp
qed

section \<open>The page extractor\<close>







section \<open>Rate limiting\<close>




end
